theory Spec2Isabelle
  imports Complex_Main
begin

section \<open>Errors, requests and the Bedrock service\<close>

text \<open>
  The exceptions that can leave the methods of \<^verbatim>\<open>BedrockTokenCounter\<close>:
  \<^verbatim>\<open>ValueError\<close> (unsupported model), \<^verbatim>\<open>ZeroDivisionError\<close> (the ratio computations
  of \<^verbatim>\<open>truncate\<close>), botocore's \<^verbatim>\<open>ClientError\<close> with its error code, and any other
  botocore failure (\<^verbatim>\<open>NoCredentialsError\<close>, \<^verbatim>\<open>NoRegionError\<close>, connection errors), which
  is not a \<^verbatim>\<open>ClientError\<close> and is therefore not caught by \<^verbatim>\<open>except ClientError\<close>.
\<close>

datatype error = ValueError | ZeroDivisionError | ClientError string | BotoCoreError string

text \<open>
  The \<^verbatim>\<open>input\<close> argument of the CountTokens call: the \<^verbatim>\<open>invokeModel\<close> body with its three
  entries; \<open>messages\<close> is a list of (role, content) pairs.
\<close>

datatype input_data =
  InvokeModel (anthropic_version: string) (messages: "(string \<times> string) list") (max_tokens: int)

text \<open>A request is the pair of keyword arguments \<^verbatim>\<open>modelId\<close>, \<^verbatim>\<open>input\<close>.\<close>

type_synonym request = "string \<times> input_data"

text \<open>The response dictionary, reduced to its \<^verbatim>\<open>inputTokens\<close> entry (\<open>None\<close>: no such key).\<close>

type_synonym response = "int option"

text \<open>
  The service behind \<^verbatim>\<open>client.count_tokens\<close>. It is outside the program, so it is a parameter
  of every operation. Its first argument is the number of requests the client has sent before
  this one: the answer to a request may depend on when it is made (throttling, a mock with a
  side effect), and a deterministic service ignores it.
\<close>

type_synonym bedrock = "nat \<Rightarrow> string \<Rightarrow> input_data \<Rightarrow> error + response"

section \<open>The counter\<close>

text \<open>
  The state of one \<^verbatim>\<open>BedrockTokenCounter\<close>: the constructor's arguments, the content of the
  \<^verbatim>\<open>lru_cache\<close> wrapped around \<^verbatim>\<open>_count_tokens_impl\<close> (keys are the argument pairs
  (text, model_id), most recently used first), and the requests its client has sent, oldest
  first. Python strings are modelled as \<open>string\<close>, one element per character.
\<close>

record counter =
  region :: "string option"
  cache_size :: int
  cache :: "((string \<times> string) \<times> int) list"
  client_calls :: "request list"

definition SUPPORTED_MODELS :: "string list" where
  "SUPPORTED_MODELS =
    [''anthropic.claude-sonnet-4-20250514-v1:0'',
     ''anthropic.claude-3-5-haiku-20241022-v1:0'',
     ''anthropic.claude-3-5-sonnet-20241022-v2:0'',
     ''anthropic.claude-3-5-sonnet-20240620-v1:0'',
     ''anthropic.claude-3-7-sonnet-20250219-v1:0'',
     ''anthropic.claude-opus-4-20250514-v1:0'']"

text \<open>\<^verbatim>\<open>__init__\<close>: nothing cached, nothing sent.\<close>

definition BedrockTokenCounter :: "string option \<Rightarrow> int \<Rightarrow> counter" where
  "BedrockTokenCounter region_arg cache_size_arg =
    \<lparr>region = region_arg, cache_size = cache_size_arg, cache = [], client_calls = []\<rparr>"

text \<open>
  \<^verbatim>\<open>_format_input_for_model\<close>: the body built for a supported model (lines 98 to 108), and
  \<^verbatim>\<open>ValueError\<close> for any other model.
\<close>

definition invoke_model_input :: "string \<Rightarrow> input_data" where
  "invoke_model_input text = InvokeModel ''bedrock-2023-05-31'' [(''user'', text)] 1"

definition format_input_for_model :: "string \<Rightarrow> string \<Rightarrow> error + input_data" where
  "format_input_for_model text model_id =
    (if model_id \<in> set SUPPORTED_MODELS
     then Inr (invoke_model_input text)
     else Inl ValueError)"

text \<open>
  \<^verbatim>\<open>response.get("inputTokens", 0)\<close>, and \<^verbatim>\<open>_count_tokens_impl\<close>: format the input, send one
  request, read the count. A request that fails has been sent all the same.
\<close>

definition get_inputTokens :: "response \<Rightarrow> int" where
  "get_inputTokens resp = (case resp of None \<Rightarrow> 0 | Some n \<Rightarrow> n)"

definition count_tokens_impl ::
  "bedrock \<Rightarrow> counter \<Rightarrow> string \<Rightarrow> string \<Rightarrow> (error + int) \<times> counter" where
  "count_tokens_impl svc c text model_id =
    (case format_input_for_model text model_id of
       Inl e \<Rightarrow> (Inl e, c)
     | Inr input_data \<Rightarrow>
         let c' = c\<lparr>client_calls := client_calls c @ [(model_id, input_data)]\<rparr> in
         (case svc (length (client_calls c)) model_id input_data of
            Inl e \<Rightarrow> (Inl e, c')
          | Inr resp \<Rightarrow> (Inr (get_inputTokens resp), c')))"

text \<open>
  \<^verbatim>\<open>_count_tokens_cached = lru_cache(maxsize=cache_size)(_count_tokens_impl)\<close>. With
  \<^verbatim>\<open>maxsize\<close> 0 (or negative, which \<^verbatim>\<open>lru_cache\<close> treats as 0) nothing is stored. Otherwise
  a hit moves the entry to the most recent position; a miss calls the function and, when it
  returns, stores the result, dropping the least recently used entry of a full cache. An
  exception is not stored.
\<close>

definition count_tokens_cached ::
  "bedrock \<Rightarrow> counter \<Rightarrow> string \<Rightarrow> string \<Rightarrow> (error + int) \<times> counter" where
  "count_tokens_cached svc c text model_id =
    (if cache_size c \<le> 0 then count_tokens_impl svc c text model_id
     else
       (case map_of (cache c) (text, model_id) of
          Some v \<Rightarrow>
            (Inr v, c\<lparr>cache := ((text, model_id), v) #
                                filter (\<lambda>e. fst e \<noteq> (text, model_id)) (cache c)\<rparr>)
        | None \<Rightarrow>
            (case count_tokens_impl svc c text model_id of
               (Inl e, c') \<Rightarrow> (Inl e, c')
             | (Inr v, c') \<Rightarrow>
                 (Inr v, c'\<lparr>cache := take (nat (cache_size c'))
                                         (((text, model_id), v) # cache c')\<rparr>))))"

definition get_message_overhead ::
  "bedrock \<Rightarrow> counter \<Rightarrow> string \<Rightarrow> (error + int) \<times> counter" where
  "get_message_overhead svc c model_id =
    (let minimal_text = ''A'' in
     case count_tokens_cached svc c minimal_text model_id of
       (Inl e, c') \<Rightarrow> (Inl e, c')
     | (Inr raw_count, c') \<Rightarrow> (Inr (raw_count - 1), c'))"

definition count_tokens ::
  "bedrock \<Rightarrow> counter \<Rightarrow> string \<Rightarrow> string \<Rightarrow> (error + int) \<times> counter" where
  "count_tokens svc c text model_id =
    (case count_tokens_cached svc c text model_id of
       (Inl e, c1) \<Rightarrow> (Inl e, c1)
     | (Inr raw_count, c1) \<Rightarrow>
         (case get_message_overhead svc c1 model_id of
            (Inl e, c2) \<Rightarrow> (Inl e, c2)
          | (Inr overhead, c2) \<Rightarrow> (Inr (max 0 (raw_count - overhead)), c2)))"

section \<open>Truncation\<close>

text \<open>
  \<^verbatim>\<open>text[:n]\<close>: a negative \<open>n\<close> counts from the end. \<^verbatim>\<open>int(x)\<close> of a float truncates
  towards zero.
\<close>

definition py_prefix :: "string \<Rightarrow> int \<Rightarrow> string" where
  "py_prefix text n =
    (if n < 0 then take (nat (int (length text) + n)) text else take (nat n) text)"

definition py_int :: "real \<Rightarrow> int" where
  "py_int x = (if x < 0 then \<lceil>x\<rceil> else \<lfloor>x\<rfloor>)"

text \<open>\<^verbatim>\<open>range(a, b)\<close> and \<^verbatim>\<open>range(a, 0, -1)\<close>, as the lists of their values.\<close>

definition range_up :: "nat \<Rightarrow> nat \<Rightarrow> nat list" where
  "range_up a b = [a ..< b]"

definition range_down :: "nat \<Rightarrow> nat list" where
  "range_down a = rev [1 ..< Suc a]"

text \<open>
  The local variables of \<^verbatim>\<open>truncate\<close> that the adaptive loop reads and writes.
\<close>

record search =
  api_calls :: int
  target_chars :: int
  best_text :: string
  best_count :: int

text \<open>
  Step 2, the initial estimate: \<^verbatim>\<open>chars_per_token\<close> and the first \<^verbatim>\<open>target_chars\<close>.
  Python computes with floats; the model computes the same expressions over the reals, so
  the two agree wherever no product lies within rounding distance of an integer. The two
  divisions by \<^verbatim>\<open>full_count_raw\<close> and by \<^verbatim>\<open>len(text)\<close> raise \<^verbatim>\<open>ZeroDivisionError\<close>.
\<close>

definition initial_estimate :: "string \<Rightarrow> int \<Rightarrow> int \<Rightarrow> error + real \<times> int" where
  "initial_estimate text full_count_raw max_tokens_arg =
    (if full_count_raw = 0 then Inl ZeroDivisionError
     else if length text = 0 then Inl ZeroDivisionError
     else
       let chars_per_token = real (length text) / real_of_int full_count_raw;
           punctuation_ratio =
             real (length (filter (\<lambda>ch. ch \<in> set ''.,!?;:'') text)) / real (length text);
           space_ratio = real (count_list text (CHR '' '')) / real (length text);
           avg_word_length =
             real (length (filter (\<lambda>ch. ch \<noteq> CHR '' '') text)) /
             real (max (count_list text (CHR '' '') + 1) 1);
           adjustment_factor =
             1 * (if punctuation_ratio > 0.05 then 0.95 else 1)
               * (if space_ratio > 0.15 then 0.98 else 1)
               * (if avg_word_length > 8 then 1.02 else 1);
           smart_chars_per_token = chars_per_token * adjustment_factor;
           target = py_int (real_of_int max_tokens_arg * smart_chars_per_token)
       in Inr (chars_per_token, min target (int (length text))))"

text \<open>
  The forward local scan (lines 245 to 260): one more character at a time over the index
  range fixed at entry. A \<^verbatim>\<open>ClientError\<close> ends the scan; any other exception leaves
  \<^verbatim>\<open>truncate\<close>.
\<close>

fun widen_scan ::
  "bedrock \<Rightarrow> string \<Rightarrow> int \<Rightarrow> string \<Rightarrow> counter \<Rightarrow> search \<Rightarrow> nat list \<Rightarrow>
   (error + search) \<times> counter" where
  "widen_scan svc text max_tokens_arg model_id c s [] = (Inr s, c)"
| "widen_scan svc text max_tokens_arg model_id c s (i # is) =
    (let test_text = take (i + 1) text in
     case count_tokens svc c test_text model_id of
       (Inl (ClientError code), c') \<Rightarrow> (Inr s, c')
     | (Inl e, c') \<Rightarrow> (Inl e, c')
     | (Inr count, c') \<Rightarrow>
         let s1 = s\<lparr>api_calls := api_calls s + 1\<rparr> in
         if count \<le> max_tokens_arg then
           let s2 = s1\<lparr>best_text := test_text, best_count := count\<rparr> in
           if count = max_tokens_arg then (Inr s2, c')
           else widen_scan svc text max_tokens_arg model_id c' s2 is
         else (Inr s1, c'))"

text \<open>
  The backward local scan (lines 271 to 286): from \<^verbatim>\<open>len(best_text)\<close> down to 1, stopping at
  the first prefix that fits.
\<close>

fun shrink_scan ::
  "bedrock \<Rightarrow> string \<Rightarrow> int \<Rightarrow> string \<Rightarrow> counter \<Rightarrow> search \<Rightarrow> nat list \<Rightarrow>
   (error + search) \<times> counter" where
  "shrink_scan svc text max_tokens_arg model_id c s [] = (Inr s, c)"
| "shrink_scan svc text max_tokens_arg model_id c s (i # is) =
    (let test_text = take i text in
     case count_tokens svc c test_text model_id of
       (Inl (ClientError code), c') \<Rightarrow> (Inr s, c')
     | (Inl e, c') \<Rightarrow> (Inl e, c')
     | (Inr count, c') \<Rightarrow>
         let s1 = s\<lparr>api_calls := api_calls s + 1\<rparr> in
         if count \<le> max_tokens_arg then
           (Inr (s1\<lparr>best_text := test_text, best_count := count\<rparr>), c')
         else shrink_scan svc text max_tokens_arg model_id c' s1 is)"

text \<open>
  How one pass through the body of the \<^verbatim>\<open>while\<close> loop ends: it falls through or reaches
  \<^verbatim>\<open>continue\<close>, it reaches a \<^verbatim>\<open>break\<close> of the \<^verbatim>\<open>while\<close> loop, or an exception leaves it.
\<close>

datatype control = Continue search counter | Break search counter | Raise error counter

text \<open>
  The body of the adaptive loop (lines 219 to 292). A \<^verbatim>\<open>ClientError\<close> of the probe at the
  top is caught by the outer handler (lines 289 to 292), which lowers \<^verbatim>\<open>target_chars\<close> and
  continues without counting a call. The local scans catch their own \<^verbatim>\<open>ClientError\<close>s and
  are followed by \<^verbatim>\<open>break\<close>.
\<close>

definition loop_body ::
  "bedrock \<Rightarrow> string \<Rightarrow> int \<Rightarrow> string \<Rightarrow> real \<Rightarrow> counter \<Rightarrow> search \<Rightarrow> control" where
  "loop_body svc text max_tokens_arg model_id chars_per_token c s =
    (let test_text = py_prefix text (target_chars s) in
     case count_tokens svc c test_text model_id of
       (Inl (ClientError code), c') \<Rightarrow>
         Continue (s\<lparr>target_chars := max (target_chars s - 10) 1\<rparr>) c'
     | (Inl e, c') \<Rightarrow> Raise e c'
     | (Inr count, c') \<Rightarrow>
         let s1 = s\<lparr>api_calls := api_calls s + 1\<rparr> in
         if count = max_tokens_arg then
           Break (s1\<lparr>best_text := test_text, best_count := count\<rparr>) c'
         else if count < max_tokens_arg then
           let s2 = s1\<lparr>best_text := test_text, best_count := count\<rparr>;
               remaining_tokens = max_tokens_arg - count
           in
           if remaining_tokens > 0 then
             let additional_chars = py_int (real_of_int remaining_tokens * chars_per_token);
                 s3 = s2\<lparr>target_chars :=
                          min (target_chars s2 + additional_chars) (int (length text))\<rparr>
             in
             if additional_chars \<le> 5 then
               (case widen_scan svc text max_tokens_arg model_id c' s3
                       (range_up (length (best_text s3))
                          (min (length (best_text s3) + 15) (length text))) of
                  (Inl e, c'') \<Rightarrow> Raise e c''
                | (Inr s4, c'') \<Rightarrow> Break s4 c'')
             else Continue s3 c'
           else Continue s2 c'
         else
           let excess_tokens = count - max_tokens_arg;
               chars_to_remove = py_int (real_of_int excess_tokens * chars_per_token);
               s2 = s1\<lparr>target_chars := max (target_chars s1 - chars_to_remove) 1\<rparr>
           in
           if chars_to_remove \<le> 5 then
             (case shrink_scan svc text max_tokens_arg model_id c' s2
                     (range_down (length (best_text s2))) of
                (Inl e, c'') \<Rightarrow> Raise e c''
              | (Inr s3, c'') \<Rightarrow> Break s3 c'')
           else Continue s2 c')"

text \<open>
  The adaptive loop (line 218). Since a caught \<^verbatim>\<open>ClientError\<close> does not advance
  \<^verbatim>\<open>api_calls\<close>, the loop need not end: the result is \<open>None\<close> when it does not.
\<close>

partial_function (option) adaptive_loop ::
  "bedrock \<Rightarrow> string \<Rightarrow> int \<Rightarrow> string \<Rightarrow> real \<Rightarrow> counter \<Rightarrow> search \<Rightarrow>
   ((error + search) \<times> counter) option" where
  "adaptive_loop svc text max_tokens_arg model_id chars_per_token c s =
    (if api_calls s < 20 then
       (case loop_body svc text max_tokens_arg model_id chars_per_token c s of
          Continue s' c' \<Rightarrow>
            adaptive_loop svc text max_tokens_arg model_id chars_per_token c' s'
        | Break s' c' \<Rightarrow> Some (Inr s', c')
        | Raise e c' \<Rightarrow> Some (Inl e, c'))
     else Some (Inr s, c))"

declare adaptive_loop.simps [code]

text \<open>
  The exhaustive search of the final step (lines 302 to 318), on the triple
  (\<^verbatim>\<open>best_text\<close>, \<^verbatim>\<open>api_calls\<close>, \<^verbatim>\<open>final_token_count\<close>). No exception is caught here.
\<close>

fun exhaustive_search ::
  "bedrock \<Rightarrow> string \<Rightarrow> int \<Rightarrow> string \<Rightarrow> counter \<Rightarrow> string \<times> int \<times> int \<Rightarrow> nat list \<Rightarrow>
   (error + string \<times> int \<times> int) \<times> counter" where
  "exhaustive_search svc text max_tokens_arg model_id c r [] = (Inr r, c)"
| "exhaustive_search svc text max_tokens_arg model_id c (best, calls, final) (i # is) =
    (if calls \<ge> 20 then (Inr (best, calls, final), c)
     else
       let test_text = take i text in
       case count_tokens svc c test_text model_id of
         (Inl e, c') \<Rightarrow> (Inl e, c')
       | (Inr test_count, c') \<Rightarrow>
           if test_count = max_tokens_arg then (Inr (test_text, calls + 1, test_count), c')
           else if test_count < max_tokens_arg then
             exhaustive_search svc text max_tokens_arg model_id c'
               (test_text, calls + 1, test_count) is
           else
             exhaustive_search svc text max_tokens_arg model_id c' (best, calls + 1, final) is)"

text \<open>Final verification and correction (lines 295 to 322).\<close>

definition final_verification ::
  "bedrock \<Rightarrow> string \<Rightarrow> int \<Rightarrow> string \<Rightarrow> counter \<Rightarrow> search \<Rightarrow>
   (error + string \<times> int \<times> int) \<times> counter" where
  "final_verification svc text max_tokens_arg model_id c s =
    (if best_text s \<noteq> [] then
       case count_tokens svc c (best_text s) model_id of
         (Inl e, c') \<Rightarrow> (Inl e, c')
       | (Inr final_token_count, c') \<Rightarrow>
           let calls = api_calls s + 1 in
           if final_token_count \<noteq> max_tokens_arg \<and> calls < 20 then
             exhaustive_search svc text max_tokens_arg model_id c'
               (best_text s, calls, final_token_count) (range_up 1 (length text + 1))
           else (Inr (best_text s, calls, final_token_count), c')
     else (Inr (best_text s, api_calls s, 0), c))"

text \<open>
  \<^verbatim>\<open>truncate\<close> with \<^verbatim>\<open>return_metadata=True\<close>: the result is the pair of the text and the metadata
  dictionary (with \<^verbatim>\<open>return_metadata=False\<close> the caller gets the first component only).
  \<open>None\<close> stands for a call that does not return. \<open>search_phase\<close> is the part of the method
  after the early return of step 1 (lines 185 to 326).
\<close>

type_synonym metadata = "(string \<times> int) list"

definition search_phase ::
  "bedrock \<Rightarrow> counter \<Rightarrow> string \<Rightarrow> int \<Rightarrow> string \<Rightarrow> int \<Rightarrow>
   ((error + string \<times> metadata) \<times> counter) option" where
  "search_phase svc c text max_tokens_arg model_id full_count_raw =
    (case initial_estimate text full_count_raw max_tokens_arg of
       Inl e \<Rightarrow> Some (Inl e, c)
     | Inr (chars_per_token, target) \<Rightarrow>
         (case adaptive_loop svc text max_tokens_arg model_id chars_per_token c
                 \<lparr>api_calls = 1, target_chars = target, best_text = [], best_count = 0\<rparr> of
            None \<Rightarrow> None
          | Some (Inl e, c3) \<Rightarrow> Some (Inl e, c3)
          | Some (Inr s, c3) \<Rightarrow>
              (case final_verification svc text max_tokens_arg model_id c3 s of
                 (Inl e, c4) \<Rightarrow> Some (Inl e, c4)
               | (Inr (best, calls, final_token_count), c4) \<Rightarrow>
                   Some (Inr (best, [(''api_calls'', calls),
                                     (''final_token_count'', final_token_count)]),
                         c4))))"

definition truncate ::
  "bedrock \<Rightarrow> counter \<Rightarrow> string \<Rightarrow> int \<Rightarrow> string \<Rightarrow>
   ((error + string \<times> metadata) \<times> counter) option" where
  "truncate svc c text max_tokens_arg model_id =
    (case count_tokens_cached svc c text model_id of
       (Inl e, c1) \<Rightarrow> Some (Inl e, c1)
     | (Inr full_count_raw, c1) \<Rightarrow>
         (case get_message_overhead svc c1 model_id of
            (Inl e, c2) \<Rightarrow> Some (Inl e, c2)
          | (Inr overhead, c2) \<Rightarrow>
              let full_count = max 0 (full_count_raw - overhead) in
              if full_count \<le> max_tokens_arg then
                Some (Inr (text, [(''api_calls'', 1), (''final_token_count'', full_count)]), c2)
              else search_phase svc c2 text max_tokens_arg model_id full_count_raw))"

section \<open>The package functions\<close>

text \<open>
  The functions \<^verbatim>\<open>count_tokens\<close> and \<^verbatim>\<open>truncate\<close> of the package's \<^verbatim>\<open>__init__.py\<close>. Each
  builds a \<^verbatim>\<open>BedrockTokenCounter\<close> with the default cache size, calls the method and
  returns its result; the counter is then dropped. The model returns, next to the result,
  the requests that the call has sent to the service. The package \<^verbatim>\<open>truncate\<close> calls the
  method without \<^verbatim>\<open>return_metadata\<close>, so it returns the text alone.
\<close>

definition module_count_tokens ::
  "bedrock \<Rightarrow> string \<Rightarrow> string \<Rightarrow> string option \<Rightarrow> (error + int) \<times> request list" where
  "module_count_tokens svc text model aws_region =
    (let counter = BedrockTokenCounter aws_region 1000 in
     case count_tokens svc counter text model of
       (r, counter') \<Rightarrow> (r, client_calls counter'))"

definition module_truncate ::
  "bedrock \<Rightarrow> string \<Rightarrow> int \<Rightarrow> string \<Rightarrow> string option \<Rightarrow>
   ((error + string) \<times> request list) option" where
  "module_truncate svc text max_tokens_arg model aws_region =
    (let counter = BedrockTokenCounter aws_region 1000 in
     case truncate svc counter text max_tokens_arg model of
       None \<Rightarrow> None
     | Some (Inl e, counter') \<Rightarrow> Some (Inl e, client_calls counter')
     | Some (Inr (best, meta), counter') \<Rightarrow> Some (Inr best, client_calls counter'))"

section \<open>Counters in use\<close>

text \<open>
  The counters a program can hold: a new one, and one on which \<^verbatim>\<open>count_tokens\<close> or
  \<^verbatim>\<open>truncate\<close> has been called (and has returned or raised).
\<close>

inductive reachable :: "bedrock \<Rightarrow> counter \<Rightarrow> bool" for svc :: bedrock where
  fresh: "reachable svc (BedrockTokenCounter region_arg cache_size_arg)"
| counted: "reachable svc c \<Longrightarrow> count_tokens svc c text model_id = (r, c') \<Longrightarrow> reachable svc c'"
| truncated: "reachable svc c \<Longrightarrow> truncate svc c text max_tokens_arg model_id = Some (r', c') \<Longrightarrow>
              reachable svc c'"

text \<open>
  What the cache holds at any time: counts of supported models only, each the answer the
  service gave to one of the requests sent so far.
\<close>

definition cache_sound :: "bedrock \<Rightarrow> counter \<Rightarrow> bool" where
  "cache_sound svc c \<longleftrightarrow>
    (\<forall>((t, m), v) \<in> set (cache c).
       m \<in> set SUPPORTED_MODELS \<and>
       (\<exists>k < length (client_calls c).
          (case svc k m (invoke_model_input t) of
             Inl e \<Rightarrow> False
           | Inr resp \<Rightarrow> v = get_inputTokens resp)))"

text \<open>The counter that a pass through the loop body leaves behind.\<close>

fun control_counter :: "control \<Rightarrow> counter" where
  "control_counter (Continue s c) = c"
| "control_counter (Break s c) = c"
| "control_counter (Raise e c) = c"

section \<open>Services used in the examples\<close>

text \<open>
  The services below read the content of the first message, as the mocks of the test suite
  do, and count from its length.
\<close>

fun content_of :: "input_data \<Rightarrow> string" where
  "content_of (InvokeModel v [] mt) = []"
| "content_of (InvokeModel v ((role, content) # ms) mt) = content"

text \<open>Two tokens for every started group of four characters.\<close>

definition chunked_service :: bedrock where
  "chunked_service k model_id inp =
    Inr (Some (2 * ((int (length (content_of inp)) + 3) div 4)))"

text \<open>
  One token, and one more for every eight characters; the text of 40 characters or more
  counts 20 (its end is dense in tokens).
\<close>

definition dense_tail_service :: bedrock where
  "dense_tail_service k model_id inp =
    (let n = length (content_of inp) in
     Inr (Some (if n \<ge> 40 then 20 else 1 + int n div 8)))"


text \<open>As \<open>chunked_service\<close> for the first two requests of a client; every later one is refused.\<close>

definition outage_service :: bedrock where
  "outage_service k model_id inp =
    (if k < 2 then chunked_service k model_id inp
     else Inl (ClientError ''ServiceUnavailableException''))"


definition haiku :: string where
  "haiku = ''anthropic.claude-3-5-haiku-20241022-v1:0''"

section \<open>The probe entry of the cache\<close>

text \<open>
  \<open>probe_hot model_id a c\<close>: the cache has room for two entries and its most recently used
  entry is the count \<open>a\<close> of the probe text "A" for the model. \<open>later_on\<close>: a counter after
  any number of further calls of \<^verbatim>\<open>count_tokens\<close> and \<^verbatim>\<open>truncate\<close> with that model.
\<close>

definition probe_hot :: "string \<Rightarrow> int \<Rightarrow> counter \<Rightarrow> bool" where
  "probe_hot model_id a c \<longleftrightarrow>
    2 \<le> cache_size c \<and>
    (case cache c of [] \<Rightarrow> False | e # rest \<Rightarrow> e = ((''A'', model_id), a))"

inductive later_on :: "bedrock \<Rightarrow> string \<Rightarrow> counter \<Rightarrow> counter \<Rightarrow> bool"
  for svc :: bedrock and model_id :: string and c :: counter where
  now: "later_on svc model_id c c"
| counted: "later_on svc model_id c c1 \<Longrightarrow> count_tokens svc c1 text model_id = (r, c2) \<Longrightarrow>
            later_on svc model_id c c2"
| truncated: "later_on svc model_id c c1 \<Longrightarrow>
              truncate svc c1 text max_tokens_arg model_id = Some (r', c2) \<Longrightarrow>
              later_on svc model_id c c2"

definition sonnet :: string where
  "sonnet = ''anthropic.claude-sonnet-4-20250514-v1:0''"

section \<open>The cache holds answers of the service\<close>

lemma invoke_model_input_inject [simp]:
  "invoke_model_input t = invoke_model_input t' \<longleftrightarrow> t = t'"
  by (simp add: invoke_model_input_def)

lemma count_tokens_impl_unsupported:
  "model_id \<notin> set SUPPORTED_MODELS \<Longrightarrow>
   count_tokens_impl svc c t model_id = (Inl ValueError, c)"
  by (simp add: count_tokens_impl_def format_input_for_model_def)

lemma count_tokens_impl_supported:
  "model_id \<in> set SUPPORTED_MODELS \<Longrightarrow>
   count_tokens_impl svc c t model_id =
     (map_sum id get_inputTokens
        (svc (length (client_calls c)) model_id (invoke_model_input t)),
      c\<lparr>client_calls := client_calls c @ [(model_id, invoke_model_input t)]\<rparr>)"
  by (simp add: count_tokens_impl_def format_input_for_model_def Let_def split: sum.splits)

lemma cache_sound_fresh: "cache_sound svc (BedrockTokenCounter r n)"
  by (simp add: cache_sound_def BedrockTokenCounter_def)

lemma cache_sound_lookup_unsupported:
  assumes "cache_sound svc c" and "m \<notin> set SUPPORTED_MODELS"
  shows "map_of (cache c) (t, m) = None"
  using assms by (force simp: cache_sound_def map_of_eq_None_iff)

lemma cache_sound_cached:
  assumes "cache_sound svc c" and "count_tokens_cached svc c t m = (r, c')"
  shows "cache_sound svc c'"
proof (cases "m \<in> set SUPPORTED_MODELS")
  case False
  with assms cache_sound_lookup_unsupported[OF assms(1) False, of t] show ?thesis
    by (auto simp: count_tokens_cached_def count_tokens_impl_unsupported split: if_splits)
next
  case True
  let ?n = "length (client_calls c)"
  have grown: "\<And>c2. cache c2 = cache c \<Longrightarrow>
      client_calls c2 = client_calls c @ [(m, invoke_model_input t)] \<Longrightarrow> cache_sound svc c2"
    using assms(1) unfolding cache_sound_def by (fastforce simp: less_Suc_eq)
  show ?thesis
  proof (cases "cache_size c \<le> 0")
    case True
    with assms(2) \<open>m \<in> set SUPPORTED_MODELS\<close> show ?thesis
      by (auto simp: count_tokens_cached_def count_tokens_impl_supported intro!: grown)
  next
    case pos: False
    show ?thesis
    proof (cases "map_of (cache c) (t, m)")
      case (Some v)
      then have "((t, m), v) \<in> set (cache c)" by (rule map_of_SomeD)
      with assms pos Some show ?thesis
        by (auto simp: count_tokens_cached_def cache_sound_def)
    next
      case None
      show ?thesis
      proof (cases "svc ?n m (invoke_model_input t)")
        case (Inl e)
        with assms(2) pos None True show ?thesis
          by (auto simp: count_tokens_cached_def count_tokens_impl_supported intro!: grown)
      next
        case (Inr resp)
        with assms(2) pos None True
        have c': "c' = c\<lparr>client_calls := client_calls c @ [(m, invoke_model_input t)],
                         cache := take (nat (cache_size c))
                                    (((t, m), get_inputTokens resp) # cache c)\<rparr>"
          by (auto simp: count_tokens_cached_def count_tokens_impl_supported)
        have "\<And>e. e \<in> set (take (nat (cache_size c))
                              (((t, m), get_inputTokens resp) # cache c)) \<Longrightarrow>
                  e = ((t, m), get_inputTokens resp) \<or> e \<in> set (cache c)"
          by (auto dest: in_set_takeD)
        then show ?thesis using assms(1) True Inr unfolding cache_sound_def c'
          by (fastforce simp: less_Suc_eq)
      qed
    qed
  qed
qed

lemma cache_sound_overhead:
  "cache_sound svc c \<Longrightarrow> get_message_overhead svc c m = (r, c') \<Longrightarrow> cache_sound svc c'"
  by (auto simp: get_message_overhead_def split: prod.splits sum.splits
           dest: cache_sound_cached)

lemma cache_sound_count_tokens:
  "cache_sound svc c \<Longrightarrow> count_tokens svc c t m = (r, c') \<Longrightarrow> cache_sound svc c'"
  by (auto simp: count_tokens_def split: prod.splits sum.splits
           dest: cache_sound_cached cache_sound_overhead)

lemma count_tokens_cached_unsupported:
  assumes "cache_sound svc c" and "m \<notin> set SUPPORTED_MODELS"
  shows "count_tokens_cached svc c t m = (Inl ValueError, c)"
  using assms(2) cache_sound_lookup_unsupported[OF assms, of t]
  by (simp add: count_tokens_cached_def count_tokens_impl_unsupported)

lemma count_tokens_cached_steady:
  assumes "cache_sound svc c" and "m \<in> set SUPPORTED_MODELS"
    and "\<forall>k. svc k m (invoke_model_input t) = Inr resp"
  shows "fst (count_tokens_cached svc c t m) = Inr (get_inputTokens resp)"
proof (cases "map_of (cache c) (t, m)")
  case None
  with assms(2,3) show ?thesis
    by (simp add: count_tokens_cached_def count_tokens_impl_supported)
next
  case (Some v)
  then have "((t, m), v) \<in> set (cache c)" by (rule map_of_SomeD)
  with assms(1,3) have "v = get_inputTokens resp"
    by (auto simp: cache_sound_def)
  with Some assms(2,3) show ?thesis
    by (simp add: count_tokens_cached_def count_tokens_impl_supported)
qed

section \<open>Invariants of the counter across a truncation\<close>

text \<open>
  \<^verbatim>\<open>truncate\<close> touches the counter through \<^verbatim>\<open>count_tokens\<close> only (its first step is
  \<^verbatim>\<open>count_tokens\<close> written out), so a property of the counter that every \<^verbatim>\<open>count_tokens\<close>
  call keeps is kept by the scans, the loop and \<^verbatim>\<open>truncate\<close>.
\<close>

lemma widen_scan_inv:
  assumes step: "\<forall>c t r c'. P c \<longrightarrow> count_tokens svc c t m = (r, c') \<longrightarrow> P c'"
  shows "P c \<Longrightarrow> P (snd (widen_scan svc t M m c s js))"
proof (induction js arbitrary: c s)
  case Nil
  then show ?case by simp
next
  case (Cons i js)
  obtain r1 c1 where ct: "count_tokens svc c (take (i + 1) t) m = (r1, c1)"
    by (cases "count_tokens svc c (take (i + 1) t) m")
  have P1: "P c1" using step Cons.prems ct by blast
  show ?case using ct P1 Cons.IH[OF P1]
    by (simp add: Let_def split: sum.splits error.splits)
qed

lemma shrink_scan_inv:
  assumes step: "\<forall>c t r c'. P c \<longrightarrow> count_tokens svc c t m = (r, c') \<longrightarrow> P c'"
  shows "P c \<Longrightarrow> P (snd (shrink_scan svc t M m c s js))"
proof (induction js arbitrary: c s)
  case Nil
  then show ?case by simp
next
  case (Cons i js)
  obtain r1 c1 where ct: "count_tokens svc c (take i t) m = (r1, c1)"
    by (cases "count_tokens svc c (take i t) m")
  have P1: "P c1" using step Cons.prems ct by blast
  show ?case using ct P1 Cons.IH[OF P1]
    by (simp add: Let_def split: sum.splits error.splits)
qed

lemma exhaustive_search_inv:
  assumes step: "\<forall>c t r c'. P c \<longrightarrow> count_tokens svc c t m = (r, c') \<longrightarrow> P c'"
  shows "P c \<Longrightarrow> P (snd (exhaustive_search svc t M m c b js))"
proof (induction js arbitrary: c b)
  case Nil
  then show ?case by simp
next
  case (Cons i js)
  obtain best calls final where b: "b = (best, calls, final)" by (cases b)
  obtain r1 c1 where ct: "count_tokens svc c (take i t) m = (r1, c1)"
    by (cases "count_tokens svc c (take i t) m")
  have P1: "P c1" using step Cons.prems ct by blast
  show ?case using ct P1 Cons.IH[OF P1] Cons.prems
    by (simp add: b Let_def split: sum.splits)
qed

lemma loop_body_inv:
  assumes step: "\<forall>c t r c'. P c \<longrightarrow> count_tokens svc c t m = (r, c') \<longrightarrow> P c'"
    and "P c"
  shows "P (control_counter (loop_body svc t M m cpt c s))"
proof -
  obtain r1 c1 where ct: "count_tokens svc c (py_prefix t (target_chars s)) m = (r1, c1)"
    by (cases "count_tokens svc c (py_prefix t (target_chars s)) m")
  have P1: "P c1" using step assms(2) ct by blast
  have w: "\<And>s' js x c''. widen_scan svc t M m c1 s' js = (x, c'') \<Longrightarrow> P c''"
    using widen_scan_inv[OF step P1] by (metis snd_conv)
  have sh: "\<And>s' js x c''. shrink_scan svc t M m c1 s' js = (x, c'') \<Longrightarrow> P c''"
    using shrink_scan_inv[OF step P1] by (metis snd_conv)
  show ?thesis using ct P1 w sh
    by (simp add: loop_body_def Let_def split: sum.splits error.splits prod.splits)
qed

text \<open>
  The proof rule of the adaptive loop: an invariant of the counter and the local variables
  that the passes keep, and a property of the result established at every exit.
\<close>

lemma adaptive_loop_rule:
  assumes run: "adaptive_loop svc t M m cpt c s = Some y"
    and inv: "I c s"
    and cont: "\<And>c s s' c'. I c s \<Longrightarrow> api_calls s < 20 \<Longrightarrow>
                 loop_body svc t M m cpt c s = Continue s' c' \<Longrightarrow> I c' s'"
    and brk: "\<And>c s s' c'. I c s \<Longrightarrow> api_calls s < 20 \<Longrightarrow>
                 loop_body svc t M m cpt c s = Break s' c' \<Longrightarrow> Q (Inr s', c')"
    and rse: "\<And>c s e c'. I c s \<Longrightarrow> api_calls s < 20 \<Longrightarrow>
                 loop_body svc t M m cpt c s = Raise e c' \<Longrightarrow> Q (Inl e, c')"
    and ext: "\<And>c s. I c s \<Longrightarrow> \<not> api_calls s < 20 \<Longrightarrow> Q (Inr s, c)"
  shows "Q y"
proof -
  have "svc = svc \<longrightarrow> t = t \<longrightarrow> M = M \<longrightarrow> m = m \<longrightarrow> cpt = cpt \<longrightarrow> I c s \<longrightarrow> Q y"
  proof (rule adaptive_loop.raw_induct
      [where P = "\<lambda>svc' t' M' m' cpt' c s y.
         svc' = svc \<longrightarrow> t' = t \<longrightarrow> M' = M \<longrightarrow> m' = m \<longrightarrow> cpt' = cpt \<longrightarrow> I c s \<longrightarrow> Q y",
       OF _ run])
    fix loop svc' t' M' m' cpt' c s y
    assume IH: "\<And>svc' t' M' m' cpt' c s y. loop svc' t' M' m' cpt' c s = Some y \<Longrightarrow>
        svc' = svc \<longrightarrow> t' = t \<longrightarrow> M' = M \<longrightarrow> m' = m \<longrightarrow> cpt' = cpt \<longrightarrow> I c s \<longrightarrow> Q y"
      and body: "(if api_calls s < 20
         then case loop_body svc' t' M' m' cpt' c s of
                Continue s' c' \<Rightarrow> loop svc' t' M' m' cpt' c' s'
              | Break s' c' \<Rightarrow> Some (Inr s', c')
              | Raise e c' \<Rightarrow> Some (Inl e, c')
         else Some (Inr s, c)) = Some y"
    show "svc' = svc \<longrightarrow> t' = t \<longrightarrow> M' = M \<longrightarrow> m' = m \<longrightarrow> cpt' = cpt \<longrightarrow> I c s \<longrightarrow> Q y"
    proof (intro impI)
      assume eqs: "svc' = svc" "t' = t" "M' = M" "m' = m" "cpt' = cpt" and I: "I c s"
      show "Q y"
      proof (cases "api_calls s < 20")
        case False
        with body have "y = (Inr s, c)" by simp
        with ext[OF I False] show ?thesis by simp
      next
        case True
        show ?thesis
        proof (cases "loop_body svc t M m cpt c s")
          case (Continue s' c')
          with body True eqs have "loop svc t M m cpt c' s' = Some y" by simp
          from IH[OF this] cont[OF I True Continue] show ?thesis by simp
        next
          case (Break s' c')
          with body True eqs have "y = (Inr s', c')" by simp
          with brk[OF I True Break] show ?thesis by simp
        next
          case (Raise e c')
          with body True eqs have "y = (Inl e, c')" by simp
          with rse[OF I True Raise] show ?thesis by simp
        qed
      qed
    qed
  qed
  with inv show ?thesis by simp
qed

lemma adaptive_loop_inv:
  assumes run: "adaptive_loop svc t M m cpt c s = Some y"
    and step: "\<forall>c t r c'. P c \<longrightarrow> count_tokens svc c t m = (r, c') \<longrightarrow> P c'"
    and "P c"
  shows "P (snd y)"
proof (rule adaptive_loop_rule[OF run, where I = "\<lambda>c s. P c" and Q = "\<lambda>y. P (snd y)"])
  show "P c" by fact
next
  fix c s s' c'
  assume "P c" and "loop_body svc t M m cpt c s = Continue s' c'"
  with loop_body_inv[OF step, of c t M cpt s] show "P c'" by simp
next
  fix c s s' c'
  assume "P c" and "loop_body svc t M m cpt c s = Break s' c'"
  with loop_body_inv[OF step, of c t M cpt s] show "P (snd (Inr s', c'))" by simp
next
  fix c s e c'
  assume "P c" and "loop_body svc t M m cpt c s = Raise e c'"
  with loop_body_inv[OF step, of c t M cpt s] show "P (snd (Inl e, c'))" by simp
next
  fix c :: counter and s :: search
  assume "P c"
  then show "P (snd (Inr s, c))" by simp
qed

lemma final_verification_inv:
  assumes step: "\<forall>c t r c'. P c \<longrightarrow> count_tokens svc c t m = (r, c') \<longrightarrow> P c'"
    and "P c"
  shows "P (snd (final_verification svc t M m c s))"
proof -
  obtain r1 c1 where ct: "count_tokens svc c (best_text s) m = (r1, c1)"
    by (cases "count_tokens svc c (best_text s) m")
  have P1: "P c1" using step assms(2) ct by blast
  show ?thesis using ct P1 assms(2) exhaustive_search_inv[OF step P1]
    by (simp add: final_verification_def Let_def split: sum.splits)
qed

lemma search_phase_inv:
  assumes step: "\<forall>c t r c'. P c \<longrightarrow> count_tokens svc c t m = (r, c') \<longrightarrow> P c'"
    and "P c" and "search_phase svc c t M m raw = Some y"
  shows "P (snd y)"
proof (cases "initial_estimate t raw M")
  case (Inl e)
  with assms(2,3) show ?thesis by (auto simp: search_phase_def)
next
  case (Inr p)
  obtain cpt target where p: "p = (cpt, target)" by (cases p)
  let ?s0 = "\<lparr>api_calls = 1, target_chars = target, best_text = [], best_count = 0\<rparr>"
  from assms(3) Inr p obtain y1 where l: "adaptive_loop svc t M m cpt c ?s0 = Some y1"
    by (auto simp: search_phase_def split: option.splits)
  have P1: "P (snd y1)" using adaptive_loop_inv[OF l step assms(2)] .
  obtain r1 c1 where y1: "y1 = (r1, c1)" by (cases y1)
  show ?thesis
  proof (cases r1)
    case (Inl e)
    with assms(3) Inr p l y1 P1 show ?thesis by (auto simp: search_phase_def)
  next
    case (Inr s)
    have "P (snd (final_verification svc t M m c1 s))"
      using final_verification_inv[OF step] P1 y1 by simp
    with assms(3) \<open>initial_estimate t raw M = Inr p\<close> p l y1 Inr show ?thesis
      by (auto simp: search_phase_def split: prod.splits sum.splits)
  qed
qed

text \<open>The first step of \<^verbatim>\<open>truncate\<close> in terms of \<^verbatim>\<open>count_tokens\<close>.\<close>

lemma truncate_error_fast:
  "count_tokens svc c t m = (Inl e, c') \<Longrightarrow> truncate svc c t M m = Some (Inl e, c')"
  by (auto simp: count_tokens_def truncate_def split: prod.splits sum.splits)

lemma truncate_fit_fast:
  "count_tokens svc c t m = (Inr n, c') \<Longrightarrow> n \<le> M \<Longrightarrow>
   truncate svc c t M m =
     Some (Inr (t, [(''api_calls'', 1), (''final_token_count'', n)]), c')"
  by (auto simp: count_tokens_def truncate_def Let_def split: prod.splits sum.splits)

lemma truncate_search:
  assumes "count_tokens svc c t m = (Inr n, c')" and "\<not> n \<le> M"
  shows "\<exists>raw. fst (count_tokens_cached svc c t m) = Inr raw \<and>
               truncate svc c t M m = search_phase svc c' t M m raw"
  using assms
  by (auto simp: count_tokens_def truncate_def Let_def split: prod.splits sum.splits)

lemma truncate_inv:
  assumes step: "\<forall>c t r c'. P c \<longrightarrow> count_tokens svc c t m = (r, c') \<longrightarrow> P c'"
    and "P c" and "truncate svc c t M m = Some y"
  shows "P (snd y)"
proof -
  obtain r1 c1 where ct: "count_tokens svc c t m = (r1, c1)"
    by (cases "count_tokens svc c t m")
  have P1: "P c1" using step assms(2) ct by blast
  show ?thesis
  proof (cases r1)
    case (Inl e)
    with ct assms(3) P1 show ?thesis by (auto simp: truncate_error_fast)
  next
    case (Inr n)
    show ?thesis
    proof (cases "n \<le> M")
      case True
      with ct Inr assms(3) P1 show ?thesis by (auto simp: truncate_fit_fast)
    next
      case False
      from truncate_search[OF ct[unfolded Inr] False] assms(3) obtain raw where
        "search_phase svc c1 t M m raw = Some y" by auto
      from search_phase_inv[OF step P1 this] show ?thesis .
    qed
  qed
qed

lemma reachable_cache_sound: "reachable svc c \<Longrightarrow> cache_sound svc c"
proof (induction rule: reachable.induct)
  case (fresh region_arg cache_size_arg)
  show ?case by (rule cache_sound_fresh)
next
  case (counted c t model_id r c')
  then show ?case by (blast intro: cache_sound_count_tokens)
next
  case (truncated c t max_tokens_arg model_id r' c')
  have "\<forall>c t r c'. cache_sound svc c \<longrightarrow> count_tokens svc c t model_id = (r, c') \<longrightarrow>
          cache_sound svc c'"
    by (blast intro: cache_sound_count_tokens)
  from truncate_inv[OF this truncated.IH truncated.hyps(2)] show ?case by simp
qed

section \<open>Counting\<close>

text \<open>
  Claim C4. For a supported model and a service that answers the request for the text and
  the request for the probe text "A" with the same responses whenever they are made,
  \<^verbatim>\<open>count_tokens\<close> on any counter in use returns
  \<open>max 0 (rawCount - overhead)\<close>, where \<open>rawCount\<close> is the count in the response for the text
  and \<open>overhead\<close> is the count in the response for "A" minus 1.
\<close>

theorem count_tokens_corrected:
  assumes "reachable svc c"
    and "model_id \<in> set SUPPORTED_MODELS"
    and "\<forall>k. svc k model_id (invoke_model_input text) = Inr raw_resp"
    and "\<forall>k. svc k model_id (invoke_model_input ''A'') = Inr probe_resp"
  shows "fst (count_tokens svc c text model_id) =
           Inr (max 0 (get_inputTokens raw_resp - (get_inputTokens probe_resp - 1)))"
proof -
  have sound: "cache_sound svc c" using assms(1) by (rule reachable_cache_sound)
  obtain r1 c1 where c1: "count_tokens_cached svc c text model_id = (r1, c1)"
    by (cases "count_tokens_cached svc c text model_id")
  have r1: "r1 = Inr (get_inputTokens raw_resp)"
    using count_tokens_cached_steady[OF sound assms(2,3)] c1 by simp
  have sound1: "cache_sound svc c1" using cache_sound_cached[OF sound c1] .
  obtain r2 c2 where c2: "count_tokens_cached svc c1 ''A'' model_id = (r2, c2)"
    by (cases "count_tokens_cached svc c1 ''A'' model_id")
  have r2: "r2 = Inr (get_inputTokens probe_resp)"
    using count_tokens_cached_steady[OF sound1 assms(2,4)] c2 by simp
  show ?thesis
    by (simp add: count_tokens_def get_message_overhead_def c1 r1 c2 r2)
qed

theorem count_tokens_corrected_witness:
  "reachable chunked_service (BedrockTokenCounter None 1000) \<and>
   haiku \<in> set SUPPORTED_MODELS \<and>
   (\<forall>k. chunked_service k haiku (invoke_model_input ''Test text'') = Inr (Some 6)) \<and>
   (\<forall>k. chunked_service k haiku (invoke_model_input ''A'') = Inr (Some 2)) \<and>
   fst (count_tokens chunked_service (BedrockTokenCounter None 1000) ''Test text'' haiku) =
     Inr 5"
proof -
  have a: "reachable chunked_service (BedrockTokenCounter None 1000)"
    by (rule reachable.fresh)
  have b: "haiku \<in> set SUPPORTED_MODELS"
    by (simp add: haiku_def SUPPORTED_MODELS_def)
  have c: "\<forall>k. chunked_service k haiku (invoke_model_input ''Test text'') = Inr (Some 6)"
    by (simp add: chunked_service_def invoke_model_input_def)
  have d: "\<forall>k. chunked_service k haiku (invoke_model_input ''A'') = Inr (Some 2)"
    by (simp add: chunked_service_def invoke_model_input_def)
  from count_tokens_corrected[OF a b c d] a b c d show ?thesis
    by (simp add: get_inputTokens_def)
qed

text \<open>
  Claim C7. For a model identifier outside the supported set, \<^verbatim>\<open>count_tokens\<close> and
  \<^verbatim>\<open>truncate\<close> on any counter in use raise \<^verbatim>\<open>ValueError\<close> and leave the counter as it was:
  no request has been sent and nothing has been cached.
\<close>

theorem unsupported_model_fails_first:
  assumes "reachable svc c" and "model_id \<notin> set SUPPORTED_MODELS"
  shows "count_tokens svc c text model_id = (Inl ValueError, c) \<and>
         truncate svc c text max_tokens_arg model_id = Some (Inl ValueError, c)"
proof -
  have "cache_sound svc c" using assms(1) by (rule reachable_cache_sound)
  from count_tokens_cached_unsupported[OF this assms(2)]
  have "count_tokens svc c text model_id = (Inl ValueError, c)"
    by (simp add: count_tokens_def)
  then show ?thesis by (simp add: truncate_error_fast)
qed

theorem unsupported_model_fails_first_witness:
  "reachable chunked_service (BedrockTokenCounter None 1000) \<and>
   ''invalid-model'' \<notin> set SUPPORTED_MODELS \<and>
   count_tokens chunked_service (BedrockTokenCounter None 1000) ''Test text''
     ''invalid-model'' = (Inl ValueError, BedrockTokenCounter None 1000) \<and>
   truncate chunked_service (BedrockTokenCounter None 1000) ''Test text'' 20
     ''invalid-model'' = Some (Inl ValueError, BedrockTokenCounter None 1000)"
proof -
  have a: "reachable chunked_service (BedrockTokenCounter None 1000)"
    by (rule reachable.fresh)
  have b: "''invalid-model'' \<notin> set SUPPORTED_MODELS"
    by (simp add: SUPPORTED_MODELS_def)
  from unsupported_model_fails_first[OF a b] a b show ?thesis by simp
qed

section \<open>Truncation: the early return\<close>

text \<open>
  Claim C3. When the corrected count of the text, as \<^verbatim>\<open>count_tokens\<close> returns it, is at
  most the target, \<^verbatim>\<open>truncate\<close> returns the text unchanged with \<^verbatim>\<open>api_calls\<close> 1 in the
  metadata, and leaves the counter as that one \<^verbatim>\<open>count_tokens\<close> call leaves it.
\<close>

theorem truncate_full_fit:
  assumes "count_tokens svc c text model_id = (Inr n, c')" and "n \<le> max_tokens_arg"
  shows "truncate svc c text max_tokens_arg model_id =
           Some (Inr (text, [(''api_calls'', 1), (''final_token_count'', n)]), c')"
  using assms by (rule truncate_fit_fast)

theorem truncate_full_fit_witness:
  "fst (count_tokens chunked_service (BedrockTokenCounter None 1000) ''Short text'' haiku) =
     Inr 5 \<and>
   (5 :: int) \<le> 20 \<and>
   map_option fst
     (truncate chunked_service (BedrockTokenCounter None 1000) ''Short text'' 20 haiku) =
     Some (Inr (''Short text'', [(''api_calls'', 1), (''final_token_count'', 5)]))"
proof -
  let ?c = "BedrockTokenCounter None 1000"
  have a: "fst (count_tokens chunked_service ?c ''Short text'' haiku) = Inr 5"
    by code_simp
  then have b: "count_tokens chunked_service ?c ''Short text'' haiku =
      (Inr 5, snd (count_tokens chunked_service ?c ''Short text'' haiku))"
    by (simp add: prod_eq_iff)
  have c: "(5 :: int) \<le> 20" by simp
  from truncate_full_fit[OF b c] a show ?thesis by simp
qed

section \<open>A counter with nothing cached\<close>



section \<open>Truncation of the empty text\<close>




section \<open>The package functions build a new counter for every call\<close>

lemma count_tokens_impl_appends:
  "count_tokens_impl svc c t m = (r, c') \<Longrightarrow> \<exists>new. client_calls c' = client_calls c @ new"
  by (auto simp: count_tokens_impl_def Let_def split: sum.splits)

lemma count_tokens_cached_appends:
  "count_tokens_cached svc c t m = (r, c') \<Longrightarrow> \<exists>new. client_calls c' = client_calls c @ new"
  by (auto simp: count_tokens_cached_def split: if_splits option.splits sum.splits prod.splits
           dest!: count_tokens_impl_appends)

lemma count_tokens_appends:
  assumes "count_tokens svc c t m = (r, c')"
  shows "\<exists>new. client_calls c' = client_calls c @ new"
proof -
  obtain r1 c1 where c1: "count_tokens_cached svc c t m = (r1, c1)"
    by (cases "count_tokens_cached svc c t m")
  obtain r2 c2 where c2: "count_tokens_cached svc c1 ''A'' m = (r2, c2)"
    by (cases "count_tokens_cached svc c1 ''A'' m")
  from count_tokens_cached_appends[OF c1] count_tokens_cached_appends[OF c2]
  have "\<exists>new. client_calls c1 = client_calls c @ new"
    and "\<exists>new. client_calls c2 = client_calls c @ new"
    by auto
  with assms c1 c2 show ?thesis
    by (auto simp: count_tokens_def get_message_overhead_def split: sum.splits)
qed

lemma count_tokens_keeps_first_two:
  "\<forall>c t r c'. (\<exists>rest. client_calls c = a # b # rest) \<longrightarrow>
      count_tokens svc c t m = (r, c') \<longrightarrow> (\<exists>rest. client_calls c' = a # b # rest)"
  by (auto dest!: count_tokens_appends)

lemma count_tokens_new_counter:
  assumes "model \<in> set SUPPORTED_MODELS" and "text \<noteq> ''A''"
    and "svc 0 model (invoke_model_input text) = Inr raw_resp"
    and "svc 1 model (invoke_model_input ''A'') = Inr probe_resp"
  shows "\<exists>c'. count_tokens svc (BedrockTokenCounter aws_region 1000) text model =
           (Inr (max 0 (get_inputTokens raw_resp - (get_inputTokens probe_resp - 1))), c') \<and>
           client_calls c' = [(model, invoke_model_input text), (model, invoke_model_input ''A'')] \<and>
           cache c' = [((''A'', model), get_inputTokens probe_resp),
                       ((text, model), get_inputTokens raw_resp)] \<and>
           cache_size c' = 1000"
  using assms
  by (simp add: count_tokens_def get_message_overhead_def count_tokens_cached_def
        count_tokens_impl_supported BedrockTokenCounter_def Let_def)

text \<open>
  Claim C10. Whatever service a call of the package function \<^verbatim>\<open>count_tokens\<close> meets, if
  the model is supported, the text is not the probe text itself and the service answers the
  two requests, then the call sends both the request for the text and the request for the
  probe text: so does the first call, and so does every repeated call with the same
  arguments, since nothing is carried from one call to the next. On a single counter the
  second \<^verbatim>\<open>count_tokens\<close> call with the same arguments returns the same count and sends
  nothing.
\<close>

theorem module_count_tokens_fresh_counter:
  assumes "model \<in> set SUPPORTED_MODELS" and "text \<noteq> ''A''"
    and "svc 0 model (invoke_model_input text) = Inr raw_resp"
    and "svc 1 model (invoke_model_input ''A'') = Inr probe_resp"
  shows "module_count_tokens svc text model aws_region =
           (Inr (max 0 (get_inputTokens raw_resp - (get_inputTokens probe_resp - 1))),
            [(model, invoke_model_input text), (model, invoke_model_input ''A'')]) \<and>
         (\<forall>r c'. count_tokens svc (BedrockTokenCounter aws_region 1000) text model = (r, c') \<longrightarrow>
            fst (count_tokens svc c' text model) = r \<and>
            client_calls (snd (count_tokens svc c' text model)) = client_calls c') \<and>
         (\<forall>r sent. module_truncate svc text max_tokens_arg model aws_region = Some (r, sent) \<longrightarrow>
            take 2 sent = [(model, invoke_model_input text), (model, invoke_model_input ''A'')])"
proof -
  from count_tokens_new_counter[where svc = svc and aws_region = aws_region, OF assms]
  obtain c1 where
    c1: "count_tokens svc (BedrockTokenCounter aws_region 1000) text model =
           (Inr (max 0 (get_inputTokens raw_resp - (get_inputTokens probe_resp - 1))), c1)"
    and calls: "client_calls c1 =
           [(model, invoke_model_input text), (model, invoke_model_input ''A'')]"
    and cache1: "cache c1 = [((''A'', model), get_inputTokens probe_resp),
                       ((text, model), get_inputTokens raw_resp)]"
    and size1: "cache_size c1 = 1000"
    by blast
  have first: "module_count_tokens svc text model aws_region =
           (Inr (max 0 (get_inputTokens raw_resp - (get_inputTokens probe_resp - 1))),
            [(model, invoke_model_input text), (model, invoke_model_input ''A'')])"
    by (simp add: module_count_tokens_def c1 calls)
  have again: "fst (count_tokens svc c1 text model) =
        Inr (max 0 (get_inputTokens raw_resp - (get_inputTokens probe_resp - 1))) \<and>
      client_calls (snd (count_tokens svc c1 text model)) = client_calls c1"
    using assms(2)
    by (simp add: count_tokens_def get_message_overhead_def count_tokens_cached_def
          cache1 size1 Let_def)
  have trunc: "take 2 sent =
      [(model, invoke_model_input text), (model, invoke_model_input ''A'')]"
    if run: "module_truncate svc text max_tokens_arg model aws_region = Some (r, sent)"
    for r sent
  proof -
    let ?n = "max 0 (get_inputTokens raw_resp - (get_inputTokens probe_resp - 1))"
    let ?P = "\<lambda>c. \<exists>rest. client_calls c =
        (model, invoke_model_input text) # (model, invoke_model_input ''A'') # rest"
    from run obtain y where
      y: "truncate svc (BedrockTokenCounter aws_region 1000) text max_tokens_arg model = Some y"
      and sent: "sent = client_calls (snd y)"
      by (auto simp: module_truncate_def Let_def split: option.splits sum.splits prod.splits)
    have P1: "?P c1" using calls by simp
    have "?P (snd y)"
    proof (cases "?n \<le> max_tokens_arg")
      case True
      from truncate_fit_fast[OF c1 True] y P1 show ?thesis by auto
    next
      case False
      from truncate_search[OF c1 False] y obtain raw where
        "search_phase svc c1 text max_tokens_arg model raw = Some y" by auto
      from search_phase_inv[OF count_tokens_keeps_first_two P1 this] show ?thesis .
    qed
    with sent show ?thesis by auto
  qed
  from first again c1 trunc show ?thesis by simp
qed

theorem module_count_tokens_fresh_counter_witness:
  "haiku \<in> set SUPPORTED_MODELS \<and> ''Test text'' \<noteq> ''A'' \<and>
   chunked_service 0 haiku (invoke_model_input ''Test text'') = Inr (Some 6) \<and>
   chunked_service 1 haiku (invoke_model_input ''A'') = Inr (Some 2) \<and>
   module_count_tokens chunked_service ''Test text'' haiku None =
     (Inr 5, [(haiku, invoke_model_input ''Test text''), (haiku, invoke_model_input ''A'')]) \<and>
   client_calls
     (snd (count_tokens chunked_service
        (snd (count_tokens chunked_service (BedrockTokenCounter None 1000) ''Test text'' haiku))
        ''Test text'' haiku)) =
     [(haiku, invoke_model_input ''Test text''), (haiku, invoke_model_input ''A'')] \<and>
   map_option fst (module_truncate chunked_service ''Test text'' 2 haiku None) =
     Some (Inr ''Test'') \<and>
   map_option (take 2 \<circ> snd) (module_truncate chunked_service ''Test text'' 2 haiku None) =
     Some [(haiku, invoke_model_input ''Test text''), (haiku, invoke_model_input ''A'')]"
proof -
  have a: "haiku \<in> set SUPPORTED_MODELS"
    by (simp add: haiku_def SUPPORTED_MODELS_def)
  have b: "''Test text'' \<noteq> ''A''" by simp
  have run: "map_option fst (module_truncate chunked_service ''Test text'' 2 haiku None) =
     Some (Inr ''Test'')"
    by code_simp
  have c: "chunked_service 0 haiku (invoke_model_input ''Test text'') = Inr (Some 6)"
    by (simp add: chunked_service_def invoke_model_input_def)
  have d: "chunked_service 1 haiku (invoke_model_input ''A'') = Inr (Some 2)"
    by (simp add: chunked_service_def invoke_model_input_def)
  note t = module_count_tokens_fresh_counter
             [where svc = chunked_service and aws_region = None and max_tokens_arg = 2,
              OF a b c d]
  from t have first: "module_count_tokens chunked_service ''Test text'' haiku None =
     (Inr 5, [(haiku, invoke_model_input ''Test text''), (haiku, invoke_model_input ''A'')])"
    by (simp add: get_inputTokens_def)
  then have calls: "client_calls
      (snd (count_tokens chunked_service (BedrockTokenCounter None 1000) ''Test text'' haiku)) =
      [(haiku, invoke_model_input ''Test text''), (haiku, invoke_model_input ''A'')]"
    by (simp add: module_count_tokens_def split: prod.splits)
  from t have "client_calls
     (snd (count_tokens chunked_service
        (snd (count_tokens chunked_service (BedrockTokenCounter None 1000) ''Test text'' haiku))
        ''Test text'' haiku)) =
     client_calls
      (snd (count_tokens chunked_service (BedrockTokenCounter None 1000) ''Test text'' haiku))"
    by (metis prod.collapse)
  moreover from t run
  have "map_option (take 2 \<circ> snd) (module_truncate chunked_service ''Test text'' 2 haiku None) =
     Some [(haiku, invoke_model_input ''Test text''), (haiku, invoke_model_input ''A'')]"
    by (cases "module_truncate chunked_service ''Test text'' 2 haiku None") auto
  ultimately show ?thesis using calls first a b c d run by simp
qed

section \<open>The overhead probe and the cache\<close>

lemma probe_hot_cache:
  "probe_hot m a c \<longleftrightarrow> 2 \<le> cache_size c \<and> (\<exists>rest. cache c = ((''A'', m), a) # rest)"
  by (auto simp: probe_hot_def split: list.splits)

lemma count_tokens_cached_hot:
  assumes "probe_hot m a c" and "count_tokens_cached svc c t m = (r1, c1)"
  shows "cache_size c1 = cache_size c"
    and "count_list (client_calls c1) (m, invoke_model_input ''A'') =
         count_list (client_calls c) (m, invoke_model_input ''A'')"
    and "case r1 of Inl e \<Rightarrow> cache c1 = cache c
         | Inr v \<Rightarrow> map_of (cache c1) (''A'', m) = Some a"
proof -
  from assms(1) obtain rest where size: "2 \<le> cache_size c"
    and cache: "cache c = ((''A'', m), a) # rest"
    by (auto simp: probe_hot_cache)
  have all: "cache_size c1 = cache_size c \<and>
    count_list (client_calls c1) (m, invoke_model_input ''A'') =
         count_list (client_calls c) (m, invoke_model_input ''A'') \<and>
    (case r1 of Inl e \<Rightarrow> cache c1 = cache c
         | Inr v \<Rightarrow> map_of (cache c1) (''A'', m) = Some a)"
  proof (cases "t = ''A''")
    case True
    with assms(2) size cache show ?thesis
      by (auto simp: count_tokens_cached_def)
  next
    case False
    show ?thesis
    proof (cases "map_of rest (t, m)")
      case (Some v)
      with assms(2) size cache False show ?thesis
        by (auto simp: count_tokens_cached_def)
    next
      case None
      show ?thesis
      proof (cases "m \<in> set SUPPORTED_MODELS")
        case unsupported: False
        with assms(2) size cache None \<open>t \<noteq> ''A''\<close> show ?thesis
          by (auto simp: count_tokens_cached_def count_tokens_impl_unsupported)
      next
        case True
        have two: "take (nat (cache_size c)) (x # y # zs) =
                    x # y # take (nat (cache_size c) - 2) zs" for x y :: "(string \<times> string) \<times> int" and zs
          using size by (cases "nat (cache_size c)") (auto simp: take_Cons')
        from assms(2) size cache None \<open>t \<noteq> ''A''\<close> True show ?thesis
          by (cases "svc (length (client_calls c)) m (invoke_model_input t)")
             (auto simp: count_tokens_cached_def count_tokens_impl_supported two)
      qed
    qed
  qed
  from all show "cache_size c1 = cache_size c" by simp
  from all show "count_list (client_calls c1) (m, invoke_model_input ''A'') =
         count_list (client_calls c) (m, invoke_model_input ''A'')" by simp
  from all show "case r1 of Inl e \<Rightarrow> cache c1 = cache c
         | Inr v \<Rightarrow> map_of (cache c1) (''A'', m) = Some a" by simp
qed

lemma overhead_cached:
  assumes "0 < cache_size c" and "map_of (cache c) (''A'', m) = Some a"
  shows "get_message_overhead svc c m =
           (Inr (a - 1),
            c\<lparr>cache := ((''A'', m), a) # filter (\<lambda>e. fst e \<noteq> (''A'', m)) (cache c)\<rparr>)"
  using assms by (simp add: get_message_overhead_def count_tokens_cached_def Let_def)

lemma count_tokens_hot:
  assumes "probe_hot m a c" and "count_tokens svc c t m = (r, c')"
  shows "probe_hot m a c' \<and>
         count_list (client_calls c') (m, invoke_model_input ''A'') =
         count_list (client_calls c) (m, invoke_model_input ''A'')"
proof -
  obtain r1 c1 where c1: "count_tokens_cached svc c t m = (r1, c1)"
    by (cases "count_tokens_cached svc c t m")
  note h = count_tokens_cached_hot[OF assms(1) c1]
  show ?thesis
  proof (cases r1)
    case (Inl e)
    with assms c1 h show ?thesis
      by (auto simp: count_tokens_def probe_hot_def)
  next
    case (Inr v)
    with h(3) have look: "map_of (cache c1) (''A'', m) = Some a" by simp
    from assms(1) h(1) have size: "2 \<le> cache_size c1" by (simp add: probe_hot_def)
    then have "0 < cache_size c1" by simp
    from overhead_cached[OF this look, of svc] assms(2) c1 Inr h(2) size show ?thesis
      by (auto simp: count_tokens_def probe_hot_def)
  qed
qed

lemma count_tokens_hot_step:
  "\<forall>c t r c'.
     (probe_hot m a c \<and> count_list (client_calls c) (m, invoke_model_input ''A'') = n) \<longrightarrow>
     count_tokens svc c t m = (r, c') \<longrightarrow>
     (probe_hot m a c' \<and> count_list (client_calls c') (m, invoke_model_input ''A'') = n)"
  using count_tokens_hot by blast

text \<open>
  Claim C8 as the code has it. The overhead is not kept in a table of its own: it is
  recomputed at every call from the cached count of the probe text, which lives in the same
  bounded LRU cache as all other counts. Once that entry is the most recently used one of a
  cache with room for at least two entries, any number of further \<^verbatim>\<open>count_tokens\<close> and
  \<^verbatim>\<open>truncate\<close> calls with the same model keep it there, send no further request for the probe
  text, and compute the same overhead.
\<close>

theorem overhead_probe_kept:
  assumes "probe_hot model_id a c" and "later_on svc model_id c c'"
  shows "probe_hot model_id a c' \<and>
         count_list (client_calls c') (model_id, invoke_model_input ''A'') =
         count_list (client_calls c) (model_id, invoke_model_input ''A'') \<and>
         fst (get_message_overhead svc c' model_id) = Inr (a - 1)"
proof -
  let ?n = "count_list (client_calls c) (model_id, invoke_model_input ''A'')"
  let ?P = "\<lambda>c'. probe_hot model_id a c' \<and>
                 count_list (client_calls c') (model_id, invoke_model_input ''A'') = ?n"
  from assms(2) have "?P c'"
  proof (induction rule: later_on.induct)
    case now
    from assms(1) show ?case by simp
  next
    case (counted c1 t r c2)
    with count_tokens_hot_step[of model_id a ?n svc] show ?case by blast
  next
    case (truncated c1 t M r' c2)
    from truncate_inv[OF count_tokens_hot_step truncated.IH truncated.hyps(2)]
    show ?case by simp
  qed
  moreover from this have "fst (get_message_overhead svc c' model_id) = Inr (a - 1)"
    by (auto simp: probe_hot_cache overhead_cached)
  ultimately show ?thesis by simp
qed

theorem overhead_probe_kept_witness:
  "probe_hot haiku 2
     (snd (count_tokens chunked_service (BedrockTokenCounter None 1000) ''hello'' haiku)) \<and>
   later_on chunked_service haiku
     (snd (count_tokens chunked_service (BedrockTokenCounter None 1000) ''hello'' haiku))
     (snd (the (truncate chunked_service
        (snd (count_tokens chunked_service (BedrockTokenCounter None 1000) ''hello'' haiku))
        ''Test text'' 2 haiku))) \<and>
   probe_hot haiku 2
     (snd (the (truncate chunked_service
        (snd (count_tokens chunked_service (BedrockTokenCounter None 1000) ''hello'' haiku))
        ''Test text'' 2 haiku))) \<and>
   count_list (client_calls (snd (the (truncate chunked_service
        (snd (count_tokens chunked_service (BedrockTokenCounter None 1000) ''hello'' haiku))
        ''Test text'' 2 haiku)))) (haiku, invoke_model_input ''A'') = 1"
proof -
  let ?c = "snd (count_tokens chunked_service (BedrockTokenCounter None 1000) ''hello'' haiku)"
  let ?c' = "snd (the (truncate chunked_service ?c ''Test text'' 2 haiku))"
  have hot: "probe_hot haiku 2 ?c" by code_simp
  have one: "count_list (client_calls ?c) (haiku, invoke_model_input ''A'') = 1"
    by code_simp
  have "map_option fst (truncate chunked_service ?c ''Test text'' 2 haiku) =
          Some (Inr (''Test'', [(''api_calls'', 14), (''final_token_count'', 1)]))"
    by code_simp
  then have run: "truncate chunked_service ?c ''Test text'' 2 haiku =
      Some (Inr (''Test'', [(''api_calls'', 14), (''final_token_count'', 1)]), ?c')"
    by (cases "truncate chunked_service ?c ''Test text'' 2 haiku") auto
  have later: "later_on chunked_service haiku ?c ?c'"
    by (rule later_on.truncated[OF later_on.now run])
  from overhead_probe_kept[OF hot later] hot later one show ?thesis by simp
qed

text \<open>
  The claim as the specification states it fails. On a counter built with \<^verbatim>\<open>cache_size=1\<close>,
  two \<^verbatim>\<open>count_tokens\<close> calls with the same text and model send the probe request twice. On
  a counter built with \<^verbatim>\<open>cache_size=2\<close>, a call with a second model evicts the probe entry of
  the first, and the next call with the first model sends its probe request again.
\<close>

theorem overhead_probe_counterexample:
  "client_calls
     (snd (count_tokens chunked_service
        (snd (count_tokens chunked_service (BedrockTokenCounter None 1) ''hello'' haiku))
        ''hello'' haiku)) =
     [(haiku, invoke_model_input ''hello''), (haiku, invoke_model_input ''A''),
      (haiku, invoke_model_input ''hello''), (haiku, invoke_model_input ''A'')] \<and>
   client_calls
     (snd (count_tokens chunked_service
        (snd (count_tokens chunked_service
           (snd (count_tokens chunked_service (BedrockTokenCounter None 2) ''hello'' haiku))
           ''hello'' sonnet))
        ''hello'' haiku)) =
     [(haiku, invoke_model_input ''hello''), (haiku, invoke_model_input ''A''),
      (sonnet, invoke_model_input ''hello''), (sonnet, invoke_model_input ''A''),
      (haiku, invoke_model_input ''hello''), (haiku, invoke_model_input ''A'')]"
  by code_simp

section \<open>Truncation: a loop that records nothing\<close>



section \<open>How many calls \<^verbatim>\<open>truncate\<close> counts\<close>

lemma py_prefix_length: "length (py_prefix t n) \<le> length t"
  by (auto simp: py_prefix_def)

lemma widen_scan_calls:
  assumes "length (best_text s) \<le> length t"
    and "widen_scan svc t M m c s js = (Inr s', c')"
  shows "api_calls s' \<le> api_calls s + int (length js) \<and> length (best_text s') \<le> length t"
  using assms
proof (induction js arbitrary: c s)
  case Nil
  then show ?case by simp
next
  case (Cons i js)
  obtain r1 c1 where ct: "count_tokens svc c (take (i + 1) t) m = (r1, c1)"
    by (cases "count_tokens svc c (take (i + 1) t) m")
  show ?case
  proof (cases r1)
    case (Inl e)
    with Cons.prems ct show ?thesis by (cases e) auto
  next
    case (Inr n)
    let ?s2 = "s\<lparr>api_calls := api_calls s + 1, best_text := take (i + 1) t, best_count := n\<rparr>"
    show ?thesis
    proof (cases "n \<le> M \<and> n \<noteq> M")
      case True
      with Cons.prems(2) ct Inr have "widen_scan svc t M m c1 ?s2 js = (Inr s', c')"
        by (simp add: Let_def)
      from Cons.IH[OF _ this] show ?thesis by simp
    next
      case False
      with Cons.prems ct Inr show ?thesis by (auto simp: Let_def split: if_splits)
    qed
  qed
qed

lemma shrink_scan_calls:
  assumes "length (best_text s) \<le> length t"
    and "shrink_scan svc t M m c s js = (Inr s', c')"
  shows "api_calls s' \<le> api_calls s + int (length js) \<and> length (best_text s') \<le> length t"
  using assms
proof (induction js arbitrary: c s)
  case Nil
  then show ?case by simp
next
  case (Cons i js)
  obtain r1 c1 where ct: "count_tokens svc c (take i t) m = (r1, c1)"
    by (cases "count_tokens svc c (take i t) m")
  show ?case
  proof (cases r1)
    case (Inl e)
    with Cons.prems ct show ?thesis by (cases e) auto
  next
    case (Inr n)
    show ?thesis
    proof (cases "n \<le> M")
      case True
      with Cons.prems ct Inr show ?thesis by (auto simp: Let_def)
    next
      case False
      with Cons.prems(2) ct Inr
      have "shrink_scan svc t M m c1 (s\<lparr>api_calls := api_calls s + 1\<rparr>) js = (Inr s', c')"
        by (simp add: Let_def)
      from Cons.IH[OF _ this] Cons.prems(1) show ?thesis by simp
    qed
  qed
qed

lemma range_up_length: "length (range_up a (min (a + 15) b)) \<le> 15"
  by (simp add: range_up_def)

lemma range_down_length: "length (range_down a) = a"
  by (simp add: range_down_def)

text \<open>
  One pass through the loop body, entered with fewer than 20 counted calls: if the loop goes
  on, at most 20 calls are counted; if it is left after a local scan, the scan has added its
  own calls without looking at the limit.
\<close>

lemma loop_body_calls:
  assumes "api_calls s < 20" and "length (best_text s) \<le> length t"
  shows "case loop_body svc t M m cpt c s of
           Continue s' c' \<Rightarrow> api_calls s' \<le> 20 \<and> length (best_text s') \<le> length t
         | Break s' c' \<Rightarrow>
             api_calls s' \<le> 20 + max 15 (int (length t)) \<and>
             length (best_text s') \<le> length t
         | Raise e c' \<Rightarrow> True"
proof -
  let ?p = "py_prefix t (target_chars s)"
  obtain r1 c1 where ct: "count_tokens svc c ?p m = (r1, c1)"
    by (cases "count_tokens svc c ?p m")
  show ?thesis
  proof (cases r1)
    case (Inl e)
    with ct assms show ?thesis by (cases e) (auto simp: loop_body_def)
  next
    case (Inr n)
    consider (exact) "n = M"
      | (under_far) "n < M" "\<not> py_int (real_of_int (M - n) * cpt) \<le> 5"
      | (under_near) "n < M" "py_int (real_of_int (M - n) * cpt) \<le> 5"
      | (over_far) "M < n" "\<not> py_int (real_of_int (n - M) * cpt) \<le> 5"
      | (over_near) "M < n" "py_int (real_of_int (n - M) * cpt) \<le> 5"
      by linarith
    then show ?thesis
    proof cases
      case exact
      with ct Inr assms show ?thesis
        by (simp add: loop_body_def Let_def py_prefix_length)
    next
      case under_far
      with ct Inr assms show ?thesis
        by (simp add: loop_body_def Let_def py_prefix_length)
    next
      case under_near
      let ?s3 = "s\<lparr>api_calls := api_calls s + 1, best_text := ?p, best_count := n,
                   target_chars := min (target_chars s + py_int (real_of_int (M - n) * cpt))
                                     (int (length t))\<rparr>"
      let ?js = "range_up (length ?p) (min (length ?p + 15) (length t))"
      obtain r2 c2 where w: "widen_scan svc t M m c1 ?s3 ?js = (r2, c2)"
        by (cases "widen_scan svc t M m c1 ?s3 ?js")
      have body: "loop_body svc t M m cpt c s =
                    (case r2 of Inl e \<Rightarrow> Raise e c2 | Inr s4 \<Rightarrow> Break s4 c2)"
        using ct Inr under_near w by (simp add: loop_body_def Let_def)
      show ?thesis
      proof (cases r2)
        case (Inl e)
        with body show ?thesis by simp
      next
        case (Inr s4)
        have "length (best_text ?s3) \<le> length t" by (simp add: py_prefix_length)
        from widen_scan_calls[OF this w[unfolded Inr]] range_up_length[of "length ?p" "length t"]
          assms(1)
        have "api_calls s4 \<le> 20 + max 15 (int (length t)) \<and>
              length (best_text s4) \<le> length t" by (simp add: max_def)
        with body Inr show ?thesis by simp
      qed
    next
      case over_far
      with ct Inr assms show ?thesis
        by (simp add: loop_body_def Let_def)
    next
      case over_near
      let ?s2 = "s\<lparr>api_calls := api_calls s + 1,
                   target_chars := max (target_chars s - py_int (real_of_int (n - M) * cpt)) 1\<rparr>"
      let ?js = "range_down (length (best_text s))"
      obtain r2 c2 where w: "shrink_scan svc t M m c1 ?s2 ?js = (r2, c2)"
        by (cases "shrink_scan svc t M m c1 ?s2 ?js")
      have body: "loop_body svc t M m cpt c s =
                    (case r2 of Inl e \<Rightarrow> Raise e c2 | Inr s3 \<Rightarrow> Break s3 c2)"
        using ct Inr over_near w by (simp add: loop_body_def Let_def)
      show ?thesis
      proof (cases r2)
        case (Inl e)
        with body show ?thesis by simp
      next
        case (Inr s3)
        have "length (best_text ?s2) \<le> length t" using assms(2) by simp
        from shrink_scan_calls[OF this w[unfolded Inr]] range_down_length[of "length (best_text s)"]
          assms
        have "api_calls s3 \<le> 20 + max 15 (int (length t)) \<and>
              length (best_text s3) \<le> length t" by (simp add: max_def)
        with body Inr show ?thesis by simp
      qed
    qed
  qed
qed

lemma adaptive_loop_calls:
  assumes run: "adaptive_loop svc t M m cpt c s = Some (Inr s', c')"
    and "api_calls s \<le> 20" and "length (best_text s) \<le> length t"
  shows "api_calls s' \<le> 20 + max 15 (int (length t)) \<and> length (best_text s') \<le> length t"
proof -
  let ?I = "\<lambda>(c :: counter) s. api_calls s \<le> 20 \<and> length (best_text s) \<le> length t"
  let ?Q = "\<lambda>y :: (error + search) \<times> counter.
              case fst y of Inl e \<Rightarrow> True
              | Inr s' \<Rightarrow> api_calls s' \<le> 20 + max 15 (int (length t)) \<and>
                         length (best_text s') \<le> length t"
  have "?Q (Inr s', c')"
  proof (rule adaptive_loop_rule[OF run, where I = ?I and Q = ?Q])
    show "?I c s" using assms(2,3) by simp
  next
    fix c :: counter and s s' :: search and c' :: counter
    assume "?I c s" "api_calls s < 20" "loop_body svc t M m cpt c s = Continue s' c'"
    with loop_body_calls[of s t svc M m cpt c] show "?I c' s'" by simp
  next
    fix c :: counter and s s' :: search and c' :: counter
    assume "?I c s" "api_calls s < 20" "loop_body svc t M m cpt c s = Break s' c'"
    with loop_body_calls[of s t svc M m cpt c] show "?Q (Inr s', c')" by simp
  next
    fix e :: error and c' :: counter
    show "?Q (Inl e, c')" by simp
  next
    fix c :: counter and s :: search
    assume "?I c s" "\<not> api_calls s < 20"
    then show "?Q (Inr s, c)" by simp
  qed
  then show ?thesis by simp
qed

lemma exhaustive_search_calls:
  "exhaustive_search svc t M m c (best, calls, final) js = (Inr (best', calls', final'), c') \<Longrightarrow>
   calls' \<le> max calls 20"
proof (induction js arbitrary: c best calls final)
  case Nil
  then show ?case by simp
next
  case (Cons i js)
  obtain r1 c1 where ct: "count_tokens svc c (take i t) m = (r1, c1)"
    by (cases "count_tokens svc c (take i t) m")
  show ?case
  proof (cases "calls \<ge> 20")
    case True
    with Cons.prems show ?thesis by simp
  next
    case False
    show ?thesis
    proof (cases r1)
      case (Inl e)
      with Cons.prems ct False show ?thesis by simp
    next
      case (Inr n)
      consider (exact) "n = M" | (under) "n < M" | (over) "M < n" by linarith
      then show ?thesis
      proof cases
        case exact
        with Cons.prems ct False Inr show ?thesis by (auto simp: Let_def)
      next
        case under
        with Cons.prems ct False Inr
        have "exhaustive_search svc t M m c1 (take i t, calls + 1, n) js =
                (Inr (best', calls', final'), c')"
          by (simp add: Let_def)
        from Cons.IH[OF this] False show ?thesis by simp
      next
        case over
        with Cons.prems ct False Inr
        have "exhaustive_search svc t M m c1 (best, calls + 1, final) js =
                (Inr (best', calls', final'), c')"
          by (simp add: Let_def)
        from Cons.IH[OF this] False show ?thesis by simp
      qed
    qed
  qed
qed

lemma final_verification_calls:
  assumes "final_verification svc t M m c s = (Inr (best, calls, final), c')"
  shows "calls \<le> max (api_calls s + 1) 20"
proof (cases "best_text s = []")
  case True
  with assms show ?thesis by (simp add: final_verification_def)
next
  case False
  obtain r1 c1 where ct: "count_tokens svc c (best_text s) m = (r1, c1)"
    by (cases "count_tokens svc c (best_text s) m")
  show ?thesis
  proof (cases r1)
    case (Inl e)
    with assms False ct show ?thesis by (simp add: final_verification_def)
  next
    case (Inr n)
    show ?thesis
    proof (cases "n \<noteq> M \<and> api_calls s + 1 < 20")
      case True
      with assms False ct Inr
      have "exhaustive_search svc t M m c1 (best_text s, api_calls s + 1, n)
              (range_up 1 (length t + 1)) = (Inr (best, calls, final), c')"
        by (simp add: final_verification_def Let_def)
      from exhaustive_search_calls[OF this] show ?thesis by simp
    next
      case no: False
      with assms False ct Inr show ?thesis
        by (auto simp: final_verification_def Let_def split: if_splits)
    qed
  qed
qed

lemma search_phase_calls:
  assumes "search_phase svc c t M m raw = Some (Inr (best, meta), c')"
  shows "\<exists>calls final. meta = [(''api_calls'', calls), (''final_token_count'', final)] \<and>
           calls \<le> 21 + max 15 (int (length t))"
proof (cases "initial_estimate t raw M")
  case (Inl e)
  with assms show ?thesis by (simp add: search_phase_def)
next
  case (Inr p)
  obtain cpt target where p: "p = (cpt, target)" by (cases p)
  let ?s0 = "\<lparr>api_calls = 1, target_chars = target, best_text = [], best_count = 0\<rparr>"
  from assms Inr p obtain r1 c1 where l: "adaptive_loop svc t M m cpt c ?s0 = Some (r1, c1)"
    by (auto simp: search_phase_def split: option.splits)
  show ?thesis
  proof (cases r1)
    case (Inl e)
    with assms \<open>initial_estimate t raw M = Inr p\<close> p l show ?thesis
      by (simp add: search_phase_def)
  next
    case s: (Inr s)
    from adaptive_loop_calls[OF l[unfolded s]]
    have loop: "api_calls s \<le> 20 + max 15 (int (length t))" by simp
    obtain r2 c2 where f: "final_verification svc t M m c1 s = (r2, c2)"
      by (cases "final_verification svc t M m c1 s")
    show ?thesis
    proof (cases r2)
      case (Inl e)
      with assms \<open>initial_estimate t raw M = Inr p\<close> p l s f show ?thesis
        by (simp add: search_phase_def)
    next
      case (Inr res)
      obtain b calls final where res: "res = (b, calls, final)" by (cases res)
      from final_verification_calls[OF f[unfolded Inr res]] loop
      have "calls \<le> 21 + max 15 (int (length t))" by simp
      with assms \<open>initial_estimate t raw M = Inr p\<close> p l s f Inr res show ?thesis
        by (auto simp: search_phase_def)
    qed
  qed
qed

text \<open>
  What the code does bound. The adaptive loop starts a pass, and the exhaustive search makes
  a probe, only while fewer than 20 calls have been counted. The local scans (at most 15
  steps forward, or at most \<^verbatim>\<open>len(best_text)\<close> steps backward) and the final verification
  count their calls without looking at the limit. So the \<^verbatim>\<open>api_calls\<close> value of the metadata
  is at most \<open>21 + max 15 (len text)\<close> whenever \<^verbatim>\<open>truncate\<close> returns.
\<close>

lemma truncate_api_calls_bound:
  assumes "truncate svc c text max_tokens_arg model_id = Some (Inr (best, meta), c')"
  shows "\<exists>calls final.
           meta = [(''api_calls'', calls), (''final_token_count'', final)] \<and>
           calls \<le> 21 + max 15 (int (length text))"
proof -
  obtain r1 c1 where ct: "count_tokens svc c text model_id = (r1, c1)"
    by (cases "count_tokens svc c text model_id")
  show ?thesis
  proof (cases r1)
    case (Inl e)
    with ct assms show ?thesis by (simp add: truncate_error_fast)
  next
    case (Inr n)
    show ?thesis
    proof (cases "n \<le> max_tokens_arg")
      case True
      with truncate_fit_fast[OF ct[unfolded Inr] True] assms show ?thesis by auto
    next
      case False
      from truncate_search[OF ct[unfolded Inr] False] assms obtain raw where
        "search_phase svc c1 text max_tokens_arg model_id raw = Some (Inr (best, meta), c')"
        by auto
      then show ?thesis by (rule search_phase_calls)
    qed
  qed
qed

text \<open>
  Claim C1 fails on the code: \<^verbatim>\<open>truncate\<close> can report more than 20 calls. The service below
  counts one token, and one more for every eight characters, except that the text of 40
  characters counts 20. For target 11 (below the count 20 of the text) the loop moves between
  the prefixes of 22, 38 and 40 characters until 20 calls are counted, and the verification
  is counted as the 21st.
\<close>

theorem truncate_exceeds_call_limit:
  "map_option fst
     (truncate dense_tail_service (BedrockTokenCounter None 1000)
        (replicate 40 CHR ''a'') 11 haiku) =
     Some (Inr (replicate 22 CHR ''a'', [(''api_calls'', 21), (''final_token_count'', 3)])) \<and>
   fst (count_tokens dense_tail_service (BedrockTokenCounter None 1000)
          (replicate 40 CHR ''a'') haiku) = Inr 20"
  by code_simp

section \<open>Where an exception of \<^verbatim>\<open>truncate\<close> comes from\<close>









section \<open>A truncation that does not return\<close>

text \<open>
  The handler of lines 289 to 292 does not count the failed call, so a service that keeps
  refusing the probe keeps the loop running: once \<^verbatim>\<open>target_chars\<close> is 1 every pass repeats the
  one before. Here the service answers the first count and the overhead probe and refuses
  everything after.
\<close>

lemma truncate_may_not_return:
  "truncate outage_service (BedrockTokenCounter None 1000) ''aaaaaaaa'' 2 haiku = None"
proof -
  let ?c0 = "BedrockTokenCounter None 1000"
  let ?t = "''aaaaaaaa''"
  let ?cache = "[((''A'', haiku), 2), ((?t, haiku), 4)] :: ((string \<times> string) \<times> int) list"
  have sup: "haiku \<in> set SUPPORTED_MODELS"
    by (simp add: haiku_def SUPPORTED_MODELS_def)
  obtain c2 where first: "count_tokens outage_service ?c0 ?t haiku = (Inr 3, c2)"
    and cache2: "cache c2 = ?cache" and size2: "cache_size c2 = 1000"
    and calls2: "length (client_calls c2) = 2"
    using sup
    by (simp add: count_tokens_def get_message_overhead_def count_tokens_cached_def
          count_tokens_impl_supported BedrockTokenCounter_def Let_def outage_service_def
          chunked_service_def invoke_model_input_def get_inputTokens_def)
  have raw: "fst (count_tokens_cached outage_service ?c0 ?t haiku) = Inr 4"
    using sup
    by (simp add: count_tokens_cached_def count_tokens_impl_supported BedrockTokenCounter_def
          outage_service_def chunked_service_def invoke_model_input_def get_inputTokens_def)
  have est: "initial_estimate ?t 4 2 = Inr (2, 4)"
    by (simp add: initial_estimate_def py_int_def Let_def)
  let ?I = "\<lambda>c s. cache c = ?cache \<and> cache_size c = 1000 \<and> 2 \<le> length (client_calls c) \<and>
                  api_calls s = 1 \<and> (target_chars s = 4 \<or> target_chars s = 1)"
  have pass: "\<exists>c'. loop_body outage_service ?t 2 haiku 2 c s =
                  Continue (s\<lparr>target_chars := 1\<rparr>) c' \<and> ?I c' (s\<lparr>target_chars := 1\<rparr>)"
    if "?I c s" for c s
  proof -
    from that have "py_prefix ?t (target_chars s) = ''aaaa'' \<or>
                    py_prefix ?t (target_chars s) = ''a''"
      by (auto simp: py_prefix_def)
    then have "count_tokens outage_service c (py_prefix ?t (target_chars s)) haiku =
      (Inl (ClientError ''ServiceUnavailableException''),
       c\<lparr>client_calls := client_calls c @
            [(haiku, invoke_model_input (py_prefix ?t (target_chars s)))]\<rparr>)"
      using that sup
      by (auto simp: count_tokens_def count_tokens_cached_def count_tokens_impl_supported
            outage_service_def)
    with that show ?thesis by (auto simp: loop_body_def)
  qed
  have never: False
    if run: "adaptive_loop outage_service ?t 2 haiku 2 c2
               \<lparr>api_calls = 1, target_chars = 4, best_text = [], best_count = 0\<rparr> = Some y"
    for y
  proof (rule adaptive_loop_rule[OF run, where I = ?I and Q = "\<lambda>y. False"])
    show "?I c2 \<lparr>api_calls = 1, target_chars = 4, best_text = [], best_count = 0\<rparr>"
      using cache2 size2 calls2 by simp
  next
    fix c :: counter and s s' :: search and c' :: counter
    assume "?I c s" and "loop_body outage_service ?t 2 haiku 2 c s = Continue s' c'"
    with pass[of c s] show "?I c' s'" by auto
  next
    fix c :: counter and s s' :: search and c' :: counter
    assume "?I c s" and "loop_body outage_service ?t 2 haiku 2 c s = Break s' c'"
    with pass[of c s] show False by auto
  next
    fix c :: counter and s :: search and e :: error and c' :: counter
    assume "?I c s" and "loop_body outage_service ?t 2 haiku 2 c s = Raise e c'"
    with pass[of c s] show False by auto
  next
    fix c :: counter and s :: search
    assume "?I c s" and "\<not> api_calls s < 20"
    then show False by simp
  qed
  then have loop: "adaptive_loop outage_service ?t 2 haiku 2 c2
      \<lparr>api_calls = 1, target_chars = 4, best_text = [], best_count = 0\<rparr> = None"
    by (cases "adaptive_loop outage_service ?t 2 haiku 2 c2
      \<lparr>api_calls = 1, target_chars = 4, best_text = [], best_count = 0\<rparr>") auto
  have "\<not> (3 :: int) \<le> 2" by simp
  from truncate_search[OF first this] raw
  have "truncate outage_service ?c0 ?t 2 haiku = search_phase outage_service c2 ?t 2 haiku 4"
    by auto
  with est loop show ?thesis by (simp add: search_phase_def)
qed

section \<open>Failures of the service during \<^verbatim>\<open>truncate\<close>\<close>




section \<open>Truncation: the prefix that is returned\<close>

text \<open>
  Claim C2 fails on the code. The exhaustive search starts again at length 1 and overwrites
  \<^verbatim>\<open>best_text\<close> with every prefix below the target, and it stops when 20 calls are counted.
  With two tokens for every started group of four characters and target 20, the prefix of
  40 characters is probed (third request) and counts 19, and yet \<^verbatim>\<open>truncate\<close> returns the
  prefix of 16 characters, which counts 7.
\<close>

theorem truncate_returns_shorter_prefix:
  "map_option fst
     (truncate chunked_service (BedrockTokenCounter None 1000)
        (replicate 100 CHR ''a'') 20 haiku) =
     Some (Inr (replicate 16 CHR ''a'', [(''api_calls'', 20), (''final_token_count'', 7)])) \<and>
   map_option (take 3 \<circ> client_calls \<circ> snd)
     (truncate chunked_service (BedrockTokenCounter None 1000)
        (replicate 100 CHR ''a'') 20 haiku) =
     Some [(haiku, invoke_model_input (replicate 100 CHR ''a'')),
           (haiku, invoke_model_input ''A''),
           (haiku, invoke_model_input (replicate 40 CHR ''a''))] \<and>
   fst (count_tokens chunked_service (BedrockTokenCounter None 1000)
          (replicate 40 CHR ''a'') haiku) = Inr 19"
  by code_simp

end
